theory Spec2Isabelle
  imports Main "HOL-Library.Word"
begin

section \<open>The dual-button example: data\<close>

text \<open>
  The embedding follows \<^verbatim>\<open>09_double_button_isr_queue_task.c\<close>. An event on the queue
  is the GPIO number, a \<^verbatim>\<open>uint32_t\<close>. \<^verbatim>\<open>TickType_t\<close> is declared by the kernel's
  port header, which is not part of the sources; on the ESP32 it is an unsigned 32-bit
  integer, so a tick count is a \<open>32 word\<close>: subtraction wraps around and the order is
  the unsigned one.
\<close>

type_synonym gpio = "32 word"
type_synonym tick = "32 word"

definition BUTTON_GPIO1 :: gpio where
  "BUTTON_GPIO1 = 0"

definition BUTTON_GPIO2 :: gpio where
  "BUTTON_GPIO2 = 4"

text \<open>
  \<^verbatim>\<open>DEBOUNCE_TICKS\<close> is \<^verbatim>\<open>pdMS_TO_TICKS(30)\<close>. The macro and the tick rate it
  reads belong to the kernel configuration, which is not part of the sources, so the
  functions below take the value of \<^verbatim>\<open>DEBOUNCE_TICKS\<close> as their first argument \<open>dt\<close>
  (30 at a tick rate of 1000 Hz, 3 at 100 Hz).
\<close>

text \<open>
  The local variables of \<^verbatim>\<open>button_task\<close> that live across iterations of its loop.
  (\<^verbatim>\<open>io_num\<close> is written by every successful receive before it is read, so it is an
  argument of the loop body rather than a field.)
\<close>

record task_state =
  last_tick_btn1 :: tick
  last_tick_btn2 :: tick

text \<open>Both are initialised to 0 before the loop is entered.\<close>

definition task_init :: task_state where
  "task_init = \<lparr>last_tick_btn1 = 0, last_tick_btn2 = 0\<rparr>"

text \<open>The three log statements of the \<^verbatim>\<open>switch\<close>; each prints \<^verbatim>\<open>io_num\<close>.\<close>

datatype log_line =
    LOGI_button1 gpio
  | LOGI_button2 gpio
  | LOGW_unexpected gpio

section \<open>The loop body of \<^verbatim>\<open>button_task\<close>\<close>

text \<open>
  The per-button debounce filter: \<^verbatim>\<open>accepted\<close> starts as \<^verbatim>\<open>true\<close>; for each of the two
  buttons the event is rejected when fewer than \<^verbatim>\<open>DEBOUNCE_TICKS\<close> ticks have passed
  since the stored tick, and otherwise the stored tick becomes \<^verbatim>\<open>now\<close>. Any other
  GPIO number takes neither branch. The result is the flag and the updated locals.
\<close>

definition debounce :: "tick \<Rightarrow> task_state \<Rightarrow> gpio \<Rightarrow> tick \<Rightarrow> bool \<times> task_state" where
  "debounce dt st io_num now =
     (if io_num = BUTTON_GPIO1 then
        (if now - last_tick_btn1 st < dt then (False, st)
         else (True, st\<lparr>last_tick_btn1 := now\<rparr>))
      else if io_num = BUTTON_GPIO2 then
        (if now - last_tick_btn2 st < dt then (False, st)
         else (True, st\<lparr>last_tick_btn2 := now\<rparr>))
      else (True, st))"

text \<open>The \<^verbatim>\<open>switch (io_num)\<close> that prints which button was pressed.\<close>

definition dispatch :: "gpio \<Rightarrow> log_line" where
  "dispatch io_num =
     (if io_num = BUTTON_GPIO1 then LOGI_button1 io_num
      else if io_num = BUTTON_GPIO2 then LOGI_button2 io_num
      else LOGW_unexpected io_num)"

text \<open>
  One pass of the loop after \<^verbatim>\<open>xQueueReceive\<close> has delivered \<^verbatim>\<open>io_num\<close> and
  \<^verbatim>\<open>xTaskGetTickCount\<close> has returned \<^verbatim>\<open>now\<close>: filter, then \<^verbatim>\<open>continue\<close> on a bounce
  or print one line. The result is the updated locals and the lines printed.
\<close>

definition button_task_body :: "tick \<Rightarrow> task_state \<Rightarrow> gpio \<Rightarrow> tick \<Rightarrow> task_state \<times> log_line list" where
  "button_task_body dt st io_num now =
     (case debounce dt st io_num now of
        (accepted, st') \<Rightarrow> if \<not> accepted then (st', []) else (st', [dispatch io_num]))"

text \<open>
  The loop itself never ends; what it does on the first \<open>n\<close> events it receives is a
  recursion over those events, each paired with the tick count read when it was received.
  \<open>button_task_loop\<close> gives the locals after the events and everything printed.
\<close>

fun button_task_loop :: "tick \<Rightarrow> task_state \<Rightarrow> (gpio \<times> tick) list \<Rightarrow> task_state \<times> log_line list" where
  "button_task_loop dt st [] = (st, [])"
| "button_task_loop dt st ((io_num, now) # evs) =
     (case button_task_body dt st io_num now of
        (st', out) \<Rightarrow> (case button_task_loop dt st' evs of
                         (st'', out') \<Rightarrow> (st'', out @ out')))"

text \<open>
  Observers of the loop, used to state properties of whole runs: whether a GPIO number
  occurs among the events received so far; the locals before each event and after the
  last one; and the values the \<^verbatim>\<open>accepted\<close> flag takes on the events of one source
  \<open>a\<close>, in order.
\<close>

definition never_seen :: "gpio \<Rightarrow> (gpio \<times> tick) list \<Rightarrow> bool" where
  "never_seen io_num evs = (io_num \<notin> fst ` set evs)"

fun task_states :: "tick \<Rightarrow> task_state \<Rightarrow> (gpio \<times> tick) list \<Rightarrow> task_state list" where
  "task_states dt st [] = [st]"
| "task_states dt st ((io_num, now) # evs) =
     st # task_states dt (fst (button_task_body dt st io_num now)) evs"

fun decisions_for :: "gpio \<Rightarrow> tick \<Rightarrow> task_state \<Rightarrow> (gpio \<times> tick) list \<Rightarrow> bool list" where
  "decisions_for a dt st [] = []"
| "decisions_for a dt st ((io_num, now) # evs) =
     (case debounce dt st io_num now of
        (accepted, st') \<Rightarrow> (if io_num = a then [accepted] else []) @ decisions_for a dt st' evs)"

text \<open>The stored tick that belongs to a GPIO number; other numbers have none.\<close>

definition last_tick_of :: "gpio \<Rightarrow> task_state \<Rightarrow> tick" where
  "last_tick_of a st =
     (if a = BUTTON_GPIO1 then last_tick_btn1 st
      else if a = BUTTON_GPIO2 then last_tick_btn2 st else 0)"

section \<open>The event channel\<close>

text \<open>
  Modelled from the spec: the queue behind \<^verbatim>\<open>button_queue\<close> (\<^verbatim>\<open>xQueueCreate\<close>,
  \<^verbatim>\<open>xQueueSendFromISR\<close>, \<^verbatim>\<open>xQueueReceive\<close>) is the kernel's and is not part of the
  sources. The specification describes the channel as a fixed-capacity circular buffer
  of event records with a count of occupied slots, the count staying between 0 and the
  capacity. \<open>slots\<close> is the buffer (its length is the capacity), \<open>head\<close> the index of the
  oldest event and \<open>occupied\<close> the count.
\<close>

record channel =
  slots :: "gpio list"
  head :: nat
  occupied :: nat

definition capacity :: "channel \<Rightarrow> nat" where
  "capacity ch = length (slots ch)"

text \<open>
  Modelled from the spec: creation of the channel (\<^verbatim>\<open>xQueueCreate\<close>, absent from the
  sources), with every slot free.
\<close>

definition channel_create :: "nat \<Rightarrow> channel" where
  "channel_create n = \<lparr>slots = replicate n 0, head = 0, occupied = 0\<rparr>"

text \<open>
  Modelled from the spec: what the two operations of the channel (absent from the
  sources) return, \<open>{Accepted, Rejected(QueueFull)}\<close> for a push and
  \<open>{Event, TimedOut}\<close> for a pop.
\<close>

datatype push_result = Accepted | QueueFull

datatype pop_result = Event gpio | TimedOut

text \<open>
  Modelled from the spec: \<^verbatim>\<open>try_push_from_interrupt\<close> (\<^verbatim>\<open>xQueueSendFromISR\<close>, absent
  from the sources). It never blocks: on a full channel it fails at once with
  \<open>QueueFull\<close>, otherwise the event goes into the first free slot behind the occupied
  ones. Whether the push asks for a reschedule is a matter of the scheduler and is not
  modelled.
\<close>

definition try_push_from_interrupt :: "gpio \<Rightarrow> channel \<Rightarrow> push_result \<times> channel" where
  "try_push_from_interrupt ev ch =
     (if occupied ch = capacity ch then (QueueFull, ch)
      else (Accepted,
            ch\<lparr>slots := (slots ch)[(head ch + occupied ch) mod capacity ch := ev],
               occupied := occupied ch + 1\<rparr>))"

text \<open>
  Modelled from the spec: \<^verbatim>\<open>pop_blocking\<close> (\<^verbatim>\<open>xQueueReceive\<close>, absent from the
  sources). Removal takes the oldest event. On an empty channel the caller stays
  suspended; in this sequential model that is the result \<open>TimedOut\<close> with the channel
  unchanged, and the caller tries again later.
\<close>

definition pop_blocking :: "channel \<Rightarrow> pop_result \<times> channel" where
  "pop_blocking ch =
     (if occupied ch = 0 then (TimedOut, ch)
      else (Event (slots ch ! head ch),
            ch\<lparr>head := (head ch + 1) mod capacity ch, occupied := occupied ch - 1\<rparr>))"

text \<open>
  The events a channel holds, oldest first, and the invariant of the representation:
  the count is at most the capacity and the head index lies inside the buffer, which
  therefore has at least one slot.
\<close>

definition contents :: "channel \<Rightarrow> gpio list" where
  "contents ch = map (\<lambda>i. slots ch ! ((head ch + i) mod capacity ch)) [0..<occupied ch]"

definition channel_ok :: "channel \<Rightarrow> bool" where
  "channel_ok ch = (occupied ch \<le> capacity ch \<and> head ch < capacity ch)"

text \<open>
  An interleaving of producers and the consumer is a list of operations on the channel;
  running it gives what each operation returned and the channel at the end.
\<close>

datatype chan_op = Push gpio | Pop

datatype chan_out = Pushed push_result | Popped pop_result

fun chan_step :: "chan_op \<Rightarrow> channel \<Rightarrow> chan_out \<times> channel" where
  "chan_step (Push ev) ch = (case try_push_from_interrupt ev ch of (r, ch') \<Rightarrow> (Pushed r, ch'))"
| "chan_step Pop ch = (case pop_blocking ch of (r, ch') \<Rightarrow> (Popped r, ch'))"

fun chan_run :: "channel \<Rightarrow> chan_op list \<Rightarrow> chan_out list \<times> channel" where
  "chan_run ch [] = ([], ch)"
| "chan_run ch (op # ops) =
     (case chan_step op ch of
        (out, ch') \<Rightarrow> (case chan_run ch' ops of (outs, ch'') \<Rightarrow> (out # outs, ch'')))"

fun pushed_events :: "chan_op list \<Rightarrow> gpio list" where
  "pushed_events [] = []"
| "pushed_events (Push ev # ops) = ev # pushed_events ops"
| "pushed_events (Pop # ops) = pushed_events ops"

fun popped_events :: "chan_out list \<Rightarrow> gpio list" where
  "popped_events [] = []"
| "popped_events (Popped (Event ev) # outs) = ev # popped_events outs"
| "popped_events (_ # outs) = popped_events outs"

section \<open>Interrupt handler, task and queue together\<close>









section \<open>The debounce filter, one event at a time\<close>

lemma gpio_distinct: "BUTTON_GPIO1 \<noteq> BUTTON_GPIO2"
  by (simp add: BUTTON_GPIO1_def BUTTON_GPIO2_def)

lemma debounce_fst:
  "fst (debounce dt st io_num now) =
     (if io_num = BUTTON_GPIO1 then dt \<le> now - last_tick_btn1 st
      else if io_num = BUTTON_GPIO2 then dt \<le> now - last_tick_btn2 st
      else True)"
  by (auto simp: debounce_def)

lemma debounce_btn1:
  "last_tick_btn1 (snd (debounce dt st io_num now)) =
     (if io_num = BUTTON_GPIO1 \<and> dt \<le> now - last_tick_btn1 st then now else last_tick_btn1 st)"
  by (auto simp: debounce_def)

lemma debounce_btn2:
  "last_tick_btn2 (snd (debounce dt st io_num now)) =
     (if io_num = BUTTON_GPIO2 \<and> dt \<le> now - last_tick_btn2 st then now else last_tick_btn2 st)"
  using gpio_distinct by (auto simp: debounce_def)

lemma body_fst: "fst (button_task_body dt st io_num now) = snd (debounce dt st io_num now)"
  by (simp add: button_task_body_def split: prod.splits)

lemma body_snd:
  "snd (button_task_body dt st io_num now) =
     (if fst (debounce dt st io_num now) then [dispatch io_num] else [])"
  by (simp add: button_task_body_def split: prod.splits)

text \<open>
  Claim C1 (as stated). The claim accepts an event also when its source has never been
  seen. The code keeps no such marker: the stored ticks start at 0. With
  \<^verbatim>\<open>DEBOUNCE_TICKS\<close> = 30, the very first event the task ever receives, from button 1 at
  tick 5, has a source that was never seen, and yet the filter rejects it.
\<close>

theorem first_event_never_seen_counterexample:
  "\<not> (fst (debounce 30 (fst (button_task_loop 30 task_init [])) BUTTON_GPIO1 5)
        \<longleftrightarrow> (30 \<le> 5 - last_tick_btn1 (fst (button_task_loop 30 task_init []))
             \<or> never_seen BUTTON_GPIO1 []))"
  by (simp add: debounce_def task_init_def never_seen_def)

text \<open>
  Claim C1 (amended). For an event of either configured button the filter accepts, and
  stores \<open>now\<close> as the button's tick, exactly when at least \<^verbatim>\<open>DEBOUNCE_TICKS\<close> ticks lie
  between the stored tick and \<open>now\<close> (unsigned 32-bit subtraction; the stored tick of a
  button not seen yet is 0). Otherwise it rejects and the locals stay as they are.
\<close>

theorem debounce_accepts_iff_quiet_interval_passed:
  "(fst (debounce dt st BUTTON_GPIO1 now) \<longleftrightarrow> dt \<le> now - last_tick_btn1 st)
 \<and> snd (debounce dt st BUTTON_GPIO1 now)
      = (if dt \<le> now - last_tick_btn1 st then st\<lparr>last_tick_btn1 := now\<rparr> else st)
 \<and> (fst (debounce dt st BUTTON_GPIO2 now) \<longleftrightarrow> dt \<le> now - last_tick_btn2 st)
 \<and> snd (debounce dt st BUTTON_GPIO2 now)
      = (if dt \<le> now - last_tick_btn2 st then st\<lparr>last_tick_btn2 := now\<rparr> else st)"
  using gpio_distinct by (auto simp: debounce_def)

theorem debounce_accepts_iff_quiet_interval_passed_witness:
  "fst (debounce 30 \<lparr>last_tick_btn1 = 100, last_tick_btn2 = 7\<rparr> BUTTON_GPIO1 130)
 \<and> snd (debounce 30 \<lparr>last_tick_btn1 = 100, last_tick_btn2 = 7\<rparr> BUTTON_GPIO1 130)
      = \<lparr>last_tick_btn1 = 130, last_tick_btn2 = 7\<rparr>
 \<and> \<not> fst (debounce 30 \<lparr>last_tick_btn1 = 100, last_tick_btn2 = 7\<rparr> BUTTON_GPIO2 36)
 \<and> snd (debounce 30 \<lparr>last_tick_btn1 = 100, last_tick_btn2 = 7\<rparr> BUTTON_GPIO2 36)
      = \<lparr>last_tick_btn1 = 100, last_tick_btn2 = 7\<rparr>"
  using debounce_accepts_iff_quiet_interval_passed
          [of 30 "\<lparr>last_tick_btn1 = 100, last_tick_btn2 = 7\<rparr>" 130]
        debounce_accepts_iff_quiet_interval_passed
          [of 30 "\<lparr>last_tick_btn1 = 100, last_tick_btn2 = 7\<rparr>" 36]
  by simp

text \<open>
  Claim C4. A rejected event changes no stored timestamp: when the filter clears the
  \<^verbatim>\<open>accepted\<close> flag, the locals of the task (the stored tick of the event's own button
  and that of the other button) are exactly what they were, and the loop body prints
  nothing.
\<close>

theorem rejected_event_keeps_timestamps:
  assumes "fst (debounce dt st io_num now) = False"
  shows "snd (debounce dt st io_num now) = st
       \<and> button_task_body dt st io_num now = (st, [])"
  using assms by (simp add: debounce_def button_task_body_def split: if_splits)

theorem rejected_event_keeps_timestamps_witness:
  "fst (debounce 30 \<lparr>last_tick_btn1 = 100, last_tick_btn2 = 7\<rparr> BUTTON_GPIO1 110) = False
   \<and> snd (debounce 30 \<lparr>last_tick_btn1 = 100, last_tick_btn2 = 7\<rparr> BUTTON_GPIO1 110)
       = \<lparr>last_tick_btn1 = 100, last_tick_btn2 = 7\<rparr>
   \<and> button_task_body 30 \<lparr>last_tick_btn1 = 100, last_tick_btn2 = 7\<rparr> BUTTON_GPIO1 110
       = (\<lparr>last_tick_btn1 = 100, last_tick_btn2 = 7\<rparr>, [])"
proof -
  have rej: "fst (debounce 30 \<lparr>last_tick_btn1 = 100, last_tick_btn2 = 7\<rparr> BUTTON_GPIO1 110) = False"
    by (simp add: debounce_def)
  from rejected_event_keeps_timestamps [OF rej] rej show ?thesis
    by simp
qed

section \<open>The loop over the events received\<close>

lemma loop_fst_Cons:
  "fst (button_task_loop dt st ((io_num, now) # evs)) =
     fst (button_task_loop dt (snd (debounce dt st io_num now)) evs)"
  by (simp add: body_fst [symmetric] split: prod.splits)

lemma loop_snd_Cons:
  "snd (button_task_loop dt st ((io_num, now) # evs)) =
     (if fst (debounce dt st io_num now) then [dispatch io_num] else [])
       @ snd (button_task_loop dt (snd (debounce dt st io_num now)) evs)"
  by (simp add: body_fst [symmetric] body_snd [symmetric] split: prod.splits)

lemma loop_fst_append:
  "fst (button_task_loop dt st (evs @ evs')) =
     fst (button_task_loop dt (fst (button_task_loop dt st evs)) evs')"
proof (induction evs arbitrary: st)
  case Nil
  show ?case by simp
next
  case (Cons e evs)
  obtain io_num now where e: "e = (io_num, now)" by (cases e)
  show ?case unfolding e append_Cons loop_fst_Cons by (rule Cons.IH)
qed

lemma loop_snd_append:
  "snd (button_task_loop dt st (evs @ evs')) =
     snd (button_task_loop dt st evs)
       @ snd (button_task_loop dt (fst (button_task_loop dt st evs)) evs')"
proof (induction evs arbitrary: st)
  case Nil
  show ?case by simp
next
  case (Cons e evs)
  obtain io_num now where e: "e = (io_num, now)" by (cases e)
  show ?case unfolding e append_Cons loop_fst_Cons loop_snd_Cons by (simp add: Cons.IH)
qed

lemma task_states_nonempty: "task_states dt st evs \<noteq> []"
  by (cases evs) auto

lemma task_states_hd: "hd (task_states dt st evs) = st"
  by (cases evs) auto

text \<open>The last entry of \<open>task_states\<close> is the state the loop ends in.\<close>

lemma loop_last_state: "fst (button_task_loop dt st evs) = last (task_states dt st evs)"
proof (induction evs arbitrary: st)
  case Nil
  show ?case by simp
next
  case (Cons e evs)
  obtain io_num now where e: "e = (io_num, now)" by (cases e)
  show ?case unfolding e loop_fst_Cons
    by (simp add: task_states_nonempty body_fst Cons.IH)
qed

lemma decisions_for_Cons:
  "decisions_for a dt st ((g, now) # evs) =
     (if g = a then [fst (debounce dt st g now)] else [])
       @ decisions_for a dt (snd (debounce dt st g now)) evs"
  by (simp split: prod.splits)

text \<open>
  Claim C7. An event whose GPIO number is neither button's makes the loop body log the
  warning and nothing else, with the locals (all debounce state) unchanged; the loop
  then goes on with the following events from the very state it was in.
\<close>

theorem unknown_source_warned_and_ignored:
  assumes "io_num \<noteq> BUTTON_GPIO1" and "io_num \<noteq> BUTTON_GPIO2"
  shows "button_task_body dt st io_num now = (st, [LOGW_unexpected io_num])
     \<and> button_task_loop dt st ((io_num, now) # evs)
         = (fst (button_task_loop dt st evs),
            LOGW_unexpected io_num # snd (button_task_loop dt st evs))"
  using assms by (simp add: debounce_def dispatch_def button_task_body_def split: prod.splits)

theorem unknown_source_warned_and_ignored_witness:
  "(5 :: gpio) \<noteq> BUTTON_GPIO1 \<and> (5 :: gpio) \<noteq> BUTTON_GPIO2
 \<and> button_task_body 30 task_init 5 12 = (task_init, [LOGW_unexpected 5])
 \<and> button_task_loop 30 task_init [(5, 12), (BUTTON_GPIO1, 50)]
      = (\<lparr>last_tick_btn1 = 50, last_tick_btn2 = 0\<rparr>,
         [LOGW_unexpected 5, LOGI_button1 BUTTON_GPIO1])"
proof -
  have a: "(5 :: gpio) \<noteq> BUTTON_GPIO1" and b: "(5 :: gpio) \<noteq> BUTTON_GPIO2"
    by (simp_all add: BUTTON_GPIO1_def BUTTON_GPIO2_def)
  have rest: "button_task_loop 30 task_init [(BUTTON_GPIO1, 50)]
      = (\<lparr>last_tick_btn1 = 50, last_tick_btn2 = 0\<rparr>, [LOGI_button1 BUTTON_GPIO1])"
    by (simp add: button_task_body_def debounce_def dispatch_def task_init_def)
  from unknown_source_warned_and_ignored
         [OF a b, of 30 task_init 12 "[(BUTTON_GPIO1, 50)]", unfolded rest fst_conv snd_conv]
  show ?thesis using a b by blast
qed

lemma dispatch_warning_names_source:
  "dispatch g = LOGW_unexpected io_num \<Longrightarrow> g = io_num"
  by (simp add: dispatch_def split: if_splits)

text \<open>
  Claim C10. An event whose GPIO number is neither GPIO 0 nor GPIO 4 is never filtered:
  whatever the tick count and the stored ticks, \<^verbatim>\<open>accepted\<close> stays true and the locals
  are untouched, so the loop body goes on to the switch, which takes its default branch:
  the body logs exactly the warning for that number. In any run of the loop every event
  of such a source is accepted, and the run logs the warning for that number once for
  each of its events.
\<close>

theorem unknown_source_bypasses_debounce:
  assumes "io_num \<noteq> BUTTON_GPIO1" and "io_num \<noteq> BUTTON_GPIO2"
  shows "debounce dt st io_num now = (True, st)
     \<and> dispatch io_num = LOGW_unexpected io_num
     \<and> button_task_body dt st io_num now = (st, [LOGW_unexpected io_num])
     \<and> decisions_for io_num dt st evs
          = replicate (length (filter (\<lambda>e. fst e = io_num) evs)) True
     \<and> filter (\<lambda>l. l = LOGW_unexpected io_num) (snd (button_task_loop dt st evs))
          = replicate (length (filter (\<lambda>e. fst e = io_num) evs)) (LOGW_unexpected io_num)"
proof -
  have one: "debounce dt st' io_num now' = (True, st')" for st' now'
    using assms by (simp add: debounce_def)
  have warn: "dispatch io_num = LOGW_unexpected io_num"
    using assms by (simp add: dispatch_def)
  have body: "button_task_body dt st io_num now = (st, [LOGW_unexpected io_num])"
    by (simp add: button_task_body_def one warn)
  have flags: "decisions_for io_num dt st' evs
          = replicate (length (filter (\<lambda>e. fst e = io_num) evs)) True" for st'
  proof (induction evs arbitrary: st')
    case Nil
    show ?case by simp
  next
    case (Cons e evs)
    obtain g now' where e: "e = (g, now')" by (cases e)
    show ?case unfolding e decisions_for_Cons
      by (simp add: Cons.IH one)
  qed
  have logged: "filter (\<lambda>l. l = LOGW_unexpected io_num) (snd (button_task_loop dt st' evs))
          = replicate (length (filter (\<lambda>e. fst e = io_num) evs)) (LOGW_unexpected io_num)"
    for st'
  proof (induction evs arbitrary: st')
    case Nil
    show ?case by simp
  next
    case (Cons e evs)
    obtain g now' where e: "e = (g, now')" by (cases e)
    show ?case
    proof (cases "g = io_num")
      case True
      show ?thesis unfolding e loop_snd_Cons True
        by (simp add: Cons.IH one warn)
    next
      case False
      then have "dispatch g \<noteq> LOGW_unexpected io_num"
        using dispatch_warning_names_source by blast
      with False show ?thesis unfolding e loop_snd_Cons
        by (simp add: Cons.IH)
    qed
  qed
  from one warn body flags logged show ?thesis by simp
qed

theorem unknown_source_bypasses_debounce_witness:
  "(7 :: gpio) \<noteq> BUTTON_GPIO1 \<and> (7 :: gpio) \<noteq> BUTTON_GPIO2
 \<and> debounce 30 task_init 7 1 = (True, task_init)
 \<and> dispatch 7 = LOGW_unexpected 7
 \<and> button_task_body 30 task_init 7 1 = (task_init, [LOGW_unexpected 7])
 \<and> decisions_for 7 30 task_init [(7, 1), (7, 2), (BUTTON_GPIO1, 2), (7, 3)] = [True, True, True]
 \<and> filter (\<lambda>l. l = LOGW_unexpected 7)
      (snd (button_task_loop 30 task_init [(7, 1), (7, 2), (BUTTON_GPIO1, 2), (7, 3)]))
    = [LOGW_unexpected 7, LOGW_unexpected 7, LOGW_unexpected 7]"
proof -
  have a: "(7 :: gpio) \<noteq> BUTTON_GPIO1" and b: "(7 :: gpio) \<noteq> BUTTON_GPIO2"
    by (simp_all add: BUTTON_GPIO1_def BUTTON_GPIO2_def)
  have n: "length (filter (\<lambda>e. fst e = (7 :: gpio))
             [(7, 1 :: tick), (7, 2), (BUTTON_GPIO1, 2), (7, 3)]) = Suc (Suc (Suc 0))"
    by (simp add: BUTTON_GPIO1_def)
  from unknown_source_bypasses_debounce
         [OF a b, of 30 task_init 1 "[(7, 1), (7, 2), (BUTTON_GPIO1, 2), (7, 3)]",
          unfolded n replicate.simps]
  show ?thesis using a b by blast
qed


section \<open>First events, independence of the sources, monotone ticks\<close>

lemma other_events_keep_btn1:
  "BUTTON_GPIO1 \<notin> fst ` set evs \<Longrightarrow>
   last_tick_btn1 (fst (button_task_loop dt st evs)) = last_tick_btn1 st"
proof (induction evs arbitrary: st)
  case Nil
  show ?case by simp
next
  case (Cons e evs)
  obtain g now where e: "e = (g, now)" by (cases e)
  from Cons.prems have "g \<noteq> BUTTON_GPIO1" and "BUTTON_GPIO1 \<notin> fst ` set evs"
    by (auto simp: e)
  then show ?case unfolding e loop_fst_Cons
    by (simp add: Cons.IH debounce_btn1)
qed

lemma other_events_keep_btn2:
  "BUTTON_GPIO2 \<notin> fst ` set evs \<Longrightarrow>
   last_tick_btn2 (fst (button_task_loop dt st evs)) = last_tick_btn2 st"
proof (induction evs arbitrary: st)
  case Nil
  show ?case by simp
next
  case (Cons e evs)
  obtain g now where e: "e = (g, now)" by (cases e)
  from Cons.prems have "g \<noteq> BUTTON_GPIO2" and "BUTTON_GPIO2 \<notin> fst ` set evs"
    by (auto simp: e)
  then show ?case unfolding e loop_fst_Cons
    by (simp add: Cons.IH debounce_btn2)
qed

text \<open>
  Claim C9. The stored ticks start at 0 and there is no marker for a button that has not
  been seen. So for either button, after any events of other sources, the button's very
  first event is rejected whenever the tick count read for it is below
  \<^verbatim>\<open>DEBOUNCE_TICKS\<close>: the loop ends in the same state and has printed the same lines as
  if the event had never arrived.
\<close>

theorem first_event_rejected_before_quiet_interval:
  assumes src: "io_num = BUTTON_GPIO1 \<or> io_num = BUTTON_GPIO2"
      and new: "never_seen io_num evs"
      and early: "now < dt"
  shows "fst (debounce dt (fst (button_task_loop dt task_init evs)) io_num now) = False
       \<and> button_task_loop dt task_init (evs @ [(io_num, now)]) = button_task_loop dt task_init evs"
proof -
  let ?st = "fst (button_task_loop dt task_init evs)"
  have rej: "fst (debounce dt ?st io_num now) = False"
  proof (cases "io_num = BUTTON_GPIO1")
    case True
    with new have "last_tick_btn1 ?st = 0"
      by (simp add: never_seen_def other_events_keep_btn1 task_init_def)
    with True early show ?thesis by (simp add: debounce_fst not_le)
  next
    case False
    with src have g2: "io_num = BUTTON_GPIO2" by simp
    with new have "last_tick_btn2 ?st = 0"
      by (simp add: never_seen_def other_events_keep_btn2 task_init_def)
    with g2 False early show ?thesis by (simp add: debounce_fst not_le)
  qed
  have same: "snd (debounce dt ?st io_num now) = ?st"
    using rej by (simp add: debounce_def split: if_splits)
  have "fst (button_task_loop dt task_init (evs @ [(io_num, now)])) = ?st"
    unfolding loop_fst_append loop_fst_Cons same by simp
  moreover have "snd (button_task_loop dt task_init (evs @ [(io_num, now)]))
      = snd (button_task_loop dt task_init evs)"
    unfolding loop_snd_append loop_snd_Cons using rej by simp
  ultimately have "button_task_loop dt task_init (evs @ [(io_num, now)])
      = button_task_loop dt task_init evs"
    by (simp add: prod_eq_iff)
  with rej show ?thesis by simp
qed

theorem first_event_rejected_before_quiet_interval_witness:
  "never_seen BUTTON_GPIO1 [(BUTTON_GPIO2, 40)] \<and> (45 :: tick) < 50
 \<and> fst (debounce 50 (fst (button_task_loop 50 task_init [(BUTTON_GPIO2, 40)])) BUTTON_GPIO1 45) = False
 \<and> button_task_loop 50 task_init ([(BUTTON_GPIO2, 40)] @ [(BUTTON_GPIO1, 45)])
      = button_task_loop 50 task_init [(BUTTON_GPIO2, 40)]"
proof -
  have new: "never_seen BUTTON_GPIO1 [(BUTTON_GPIO2, 40)]"
    using gpio_distinct by (simp add: never_seen_def)
  have early: "(45 :: tick) < 50" by simp
  from first_event_rejected_before_quiet_interval [OF disjI1 [OF refl] new early] new early
  show ?thesis by blast
qed

lemma debounce_fst_own:
  "last_tick_of a st = last_tick_of a st' \<Longrightarrow>
   fst (debounce dt st a now) = fst (debounce dt st' a now)"
  by (auto simp: debounce_fst last_tick_of_def)

lemma debounce_snd_own:
  "last_tick_of a st = last_tick_of a st' \<Longrightarrow>
   last_tick_of a (snd (debounce dt st g now)) = last_tick_of a (snd (debounce dt st' g now))"
  using gpio_distinct by (auto simp: debounce_btn1 debounce_btn2 last_tick_of_def)

lemma debounce_snd_other:
  "g \<noteq> a \<Longrightarrow> last_tick_of a (snd (debounce dt st g now)) = last_tick_of a st"
  using gpio_distinct by (auto simp: debounce_btn1 debounce_btn2 last_tick_of_def)

text \<open>The decisions on the events of \<open>a\<close> depend on the state only through \<open>a\<close>'s own tick.\<close>

lemma decisions_for_own_state:
  "last_tick_of a st = last_tick_of a st' \<Longrightarrow>
   decisions_for a dt st evs = decisions_for a dt st' evs"
proof (induction evs arbitrary: st st')
  case Nil
  show ?case by simp
next
  case (Cons e evs)
  obtain g now where e: "e = (g, now)" by (cases e)
  have tl: "decisions_for a dt (snd (debounce dt st g now)) evs
          = decisions_for a dt (snd (debounce dt st' g now)) evs"
    by (rule Cons.IH) (rule debounce_snd_own [OF Cons.prems])
  show ?case unfolding e decisions_for_Cons tl
    using debounce_fst_own [OF Cons.prems] by simp
qed

text \<open>They depend on the events only through \<open>a\<close>'s own events.\<close>

lemma decisions_for_own_events:
  "decisions_for a dt st (filter (\<lambda>e. fst e = a) evs) = decisions_for a dt st evs"
proof (induction evs arbitrary: st)
  case Nil
  show ?case by simp
next
  case (Cons e evs)
  obtain g now where e: "e = (g, now)" by (cases e)
  show ?case
  proof (cases "g = a")
    case True
    then show ?thesis unfolding e
      by (simp add: decisions_for_Cons Cons.IH del: decisions_for.simps)
  next
    case False
    have "decisions_for a dt (snd (debounce dt st g now)) evs = decisions_for a dt st evs"
      by (rule decisions_for_own_state) (rule debounce_snd_other [OF False])
    with False show ?thesis unfolding e
      by (simp add: decisions_for_Cons Cons.IH del: decisions_for.simps)
  qed
qed

text \<open>
  Claim C6. Let \<open>a\<close> and \<open>b\<close> be distinct sources and let two streams of received events
  differ only in events of \<open>b\<close> (they are the same stream once the events of \<open>b\<close> are
  taken out, so one may have any events of \<open>b\<close> interleaved that the other lacks). Then,
  from any state of the task, the filter takes the same decisions on the events of \<open>a\<close>
  in both streams.
\<close>

theorem decisions_independent_of_other_source:
  assumes "a \<noteq> b"
      and "filter (\<lambda>e. fst e \<noteq> b) evs = filter (\<lambda>e. fst e \<noteq> b) evs'"
  shows "decisions_for a dt st evs = decisions_for a dt st evs'"
proof -
  have proj: "filter (\<lambda>e. fst e = a) xs = filter (\<lambda>e. fst e = a) (filter (\<lambda>e. fst e \<noteq> b) xs)"
    for xs :: "(gpio \<times> tick) list"
    using assms(1) by (simp add: conj_commute cong: conj_cong)
  have "filter (\<lambda>e. fst e = a) evs = filter (\<lambda>e. fst e = a) evs'"
    using proj [of evs] proj [of evs'] assms(2) by simp
  then show ?thesis
    using decisions_for_own_events [of a dt st evs] decisions_for_own_events [of a dt st evs']
    by simp
qed

text \<open>
  The scenario of the claim: buttons 1 and 2 alternate every 5 ticks, the quiet interval
  is 30 ticks. Button 1 is filtered as it is with no event of button 2 in the stream.
\<close>

theorem decisions_independent_of_other_source_witness:
  "BUTTON_GPIO1 \<noteq> BUTTON_GPIO2
 \<and> decisions_for BUTTON_GPIO1 30 task_init
      [(BUTTON_GPIO1, 100), (BUTTON_GPIO2, 105), (BUTTON_GPIO1, 110), (BUTTON_GPIO2, 115),
       (BUTTON_GPIO1, 120), (BUTTON_GPIO2, 125), (BUTTON_GPIO1, 130), (BUTTON_GPIO2, 135)]
    = decisions_for BUTTON_GPIO1 30 task_init
      [(BUTTON_GPIO1, 100), (BUTTON_GPIO1, 110), (BUTTON_GPIO1, 120), (BUTTON_GPIO1, 130)]
 \<and> decisions_for BUTTON_GPIO1 30 task_init
      [(BUTTON_GPIO1, 100), (BUTTON_GPIO1, 110), (BUTTON_GPIO1, 120), (BUTTON_GPIO1, 130)]
    = [True, False, False, True]"
proof -
  have same: "filter (\<lambda>e. fst e \<noteq> BUTTON_GPIO2)
      [(BUTTON_GPIO1, 100 :: tick), (BUTTON_GPIO2, 105), (BUTTON_GPIO1, 110), (BUTTON_GPIO2, 115),
       (BUTTON_GPIO1, 120), (BUTTON_GPIO2, 125), (BUTTON_GPIO1, 130), (BUTTON_GPIO2, 135)]
    = filter (\<lambda>e. fst e \<noteq> BUTTON_GPIO2)
      [(BUTTON_GPIO1, 100), (BUTTON_GPIO1, 110), (BUTTON_GPIO1, 120), (BUTTON_GPIO1, 130)]"
    using gpio_distinct by simp
  have alone: "decisions_for BUTTON_GPIO1 30 task_init
      [(BUTTON_GPIO1, 100), (BUTTON_GPIO1, 110), (BUTTON_GPIO1, 120), (BUTTON_GPIO1, 130)]
    = [True, False, False, True]"
    by (simp add: debounce_def task_init_def)
  from decisions_independent_of_other_source [OF gpio_distinct same, of 30 task_init]
    gpio_distinct alone
  show ?thesis by blast
qed

lemma sorted_btn1:
  "sorted (map snd evs) \<Longrightarrow> \<forall>e\<in>set evs. last_tick_btn1 st \<le> snd e \<Longrightarrow>
   sorted (map last_tick_btn1 (task_states dt st evs))"
proof (induction evs arbitrary: st)
  case Nil
  show ?case by simp
next
  case (Cons e evs)
  obtain g now where e: "e = (g, now)" by (cases e)
  let ?st' = "snd (debounce dt st g now)"
  from Cons.prems have le: "last_tick_btn1 st \<le> now"
    and later: "\<forall>e\<in>set evs. now \<le> snd e" "\<forall>e\<in>set evs. last_tick_btn1 st \<le> snd e"
    and srt: "sorted (map snd evs)"
    by (auto simp: e)
  have step: "last_tick_btn1 st \<le> last_tick_btn1 ?st'"
    using le by (simp add: debounce_btn1)
  have "\<forall>e\<in>set evs. last_tick_btn1 ?st' \<le> snd e"
    using later by (simp add: debounce_btn1)
  with srt have tl: "sorted (map last_tick_btn1 (task_states dt ?st' evs))"
    by (rule Cons.IH)
  obtain ss where ss: "task_states dt ?st' evs = ?st' # ss"
    using task_states_hd [of dt ?st' evs] task_states_nonempty [of dt ?st' evs]
    by (cases "task_states dt ?st' evs") auto
  show ?case unfolding e using tl step
    by (auto simp: body_fst ss intro: order_trans)
qed

lemma sorted_btn2:
  "sorted (map snd evs) \<Longrightarrow> \<forall>e\<in>set evs. last_tick_btn2 st \<le> snd e \<Longrightarrow>
   sorted (map last_tick_btn2 (task_states dt st evs))"
proof (induction evs arbitrary: st)
  case Nil
  show ?case by simp
next
  case (Cons e evs)
  obtain g now where e: "e = (g, now)" by (cases e)
  let ?st' = "snd (debounce dt st g now)"
  from Cons.prems have le: "last_tick_btn2 st \<le> now"
    and later: "\<forall>e\<in>set evs. now \<le> snd e" "\<forall>e\<in>set evs. last_tick_btn2 st \<le> snd e"
    and srt: "sorted (map snd evs)"
    by (auto simp: e)
  have step: "last_tick_btn2 st \<le> last_tick_btn2 ?st'"
    using le by (simp add: debounce_btn2)
  have "\<forall>e\<in>set evs. last_tick_btn2 ?st' \<le> snd e"
    using later by (simp add: debounce_btn2)
  with srt have tl: "sorted (map last_tick_btn2 (task_states dt ?st' evs))"
    by (rule Cons.IH)
  obtain ss where ss: "task_states dt ?st' evs = ?st' # ss"
    using task_states_hd [of dt ?st' evs] task_states_nonempty [of dt ?st' evs]
    by (cases "task_states dt ?st' evs") auto
  show ?case unfolding e using tl step
    by (auto simp: body_fst ss intro: order_trans)
qed

text \<open>
  Claim C8. When the tick counts read by the loop never decrease, the stored tick of each
  button never decreases from one step of the loop to the next: along the states the
  task goes through, starting from its initial state, both stored ticks are sorted.
\<close>

theorem stored_ticks_never_decrease:
  assumes "sorted (map snd evs)"
  shows "sorted (map last_tick_btn1 (task_states dt task_init evs))
       \<and> sorted (map last_tick_btn2 (task_states dt task_init evs))"
proof
  show "sorted (map last_tick_btn1 (task_states dt task_init evs))"
    using assms by (rule sorted_btn1) (simp add: task_init_def)
  show "sorted (map last_tick_btn2 (task_states dt task_init evs))"
    using assms by (rule sorted_btn2) (simp add: task_init_def)
qed

theorem stored_ticks_never_decrease_witness:
  "sorted (map snd [(BUTTON_GPIO1, 100 :: tick), (BUTTON_GPIO2, 105), (BUTTON_GPIO1, 110), (BUTTON_GPIO1, 140)])
 \<and> map last_tick_btn1 (task_states 30 task_init
      [(BUTTON_GPIO1, 100), (BUTTON_GPIO2, 105), (BUTTON_GPIO1, 110), (BUTTON_GPIO1, 140)])
    = [0, 100, 100, 100, 140]
 \<and> sorted (map last_tick_btn1 (task_states 30 task_init
      [(BUTTON_GPIO1, 100), (BUTTON_GPIO2, 105), (BUTTON_GPIO1, 110), (BUTTON_GPIO1, 140)]))
 \<and> sorted (map last_tick_btn2 (task_states 30 task_init
      [(BUTTON_GPIO1, 100), (BUTTON_GPIO2, 105), (BUTTON_GPIO1, 110), (BUTTON_GPIO1, 140)]))"
proof -
  have mono: "sorted (map snd [(BUTTON_GPIO1, 100 :: tick), (BUTTON_GPIO2, 105),
      (BUTTON_GPIO1, 110), (BUTTON_GPIO1, 140)])"
    by simp
  have vals: "map last_tick_btn1 (task_states 30 task_init
      [(BUTTON_GPIO1, 100), (BUTTON_GPIO2, 105), (BUTTON_GPIO1, 110), (BUTTON_GPIO1, 140)])
    = [0, 100, 100, 100, 140]"
    using gpio_distinct by (simp add: body_fst debounce_def task_init_def)
  from stored_ticks_never_decrease [OF mono, of 30] mono vals
  show ?thesis by blast
qed


section \<open>The channel: full pushes and FIFO order\<close>

lemma mod_shift_neq:
  fixes h i j n :: nat
  assumes "i < j" and "j < n"
  shows "(h + i) mod n \<noteq> (h + j) mod n"
proof
  assume "(h + i) mod n = (h + j) mod n"
  then have "(h + j) mod n = (h + i) mod n" by simp
  then have "n dvd (h + j) - (h + i)"
    using assms(1) by (simp add: mod_eq_dvd_iff_nat)
  then have "n dvd j - i" by simp
  moreover have "0 < j - i" and "j - i < n" using assms by simp_all
  ultimately show False using nat_dvd_not_less by blast
qed

lemma channel_ok_create: "0 < n \<Longrightarrow> channel_ok (channel_create n)"
  by (simp add: channel_ok_def channel_create_def capacity_def)

lemma contents_create: "contents (channel_create n) = []"
  by (simp add: contents_def channel_create_def)

lemma channel_ok_push: "channel_ok ch \<Longrightarrow> channel_ok (snd (try_push_from_interrupt ev ch))"
  by (auto simp: channel_ok_def try_push_from_interrupt_def capacity_def)

lemma channel_ok_pop: "channel_ok ch \<Longrightarrow> channel_ok (snd (pop_blocking ch))"
proof -
  assume ok: "channel_ok ch"
  then have "0 < capacity ch" by (simp add: channel_ok_def)
  then have "(head ch + 1) mod capacity ch < capacity ch" by (rule mod_less_divisor)
  with ok show ?thesis
    by (auto simp: channel_ok_def pop_blocking_def capacity_def)
qed

lemma push_full: "occupied ch = capacity ch \<Longrightarrow> try_push_from_interrupt ev ch = (QueueFull, ch)"
  by (simp add: try_push_from_interrupt_def)

text \<open>A push with room appends the event behind the ones the channel holds.\<close>

lemma push_accepted:
  assumes ok: "channel_ok ch" and room: "occupied ch \<noteq> capacity ch"
  shows "fst (try_push_from_interrupt ev ch) = Accepted"
    and "contents (snd (try_push_from_interrupt ev ch)) = contents ch @ [ev]"
proof -
  let ?n = "capacity ch" and ?k = "(head ch + occupied ch) mod capacity ch"
  from ok room have lt: "occupied ch < ?n" and pos: "0 < ?n"
    by (auto simp: channel_ok_def)
  show "fst (try_push_from_interrupt ev ch) = Accepted"
    using room by (simp add: try_push_from_interrupt_def)
  have k: "?k < length (slots ch)" using pos by (simp add: capacity_def)
  have old: "(slots ch)[?k := ev] ! ((head ch + i) mod ?n) = slots ch ! ((head ch + i) mod ?n)"
    if "i < occupied ch" for i
    using mod_shift_neq [OF that lt, of "head ch"] by simp
  have new: "(slots ch)[?k := ev] ! ?k = ev"
    using k by simp
  have "contents (snd (try_push_from_interrupt ev ch))
      = map (\<lambda>i. (slots ch)[?k := ev] ! ((head ch + i) mod ?n)) [0..<Suc (occupied ch)]"
    using room by (simp add: try_push_from_interrupt_def contents_def capacity_def)
  also have "\<dots> = map (\<lambda>i. (slots ch)[?k := ev] ! ((head ch + i) mod ?n)) [0..<occupied ch] @ [ev]"
    using new by simp
  also have "map (\<lambda>i. (slots ch)[?k := ev] ! ((head ch + i) mod ?n)) [0..<occupied ch] = contents ch"
    unfolding contents_def by (rule map_cong) (simp_all add: old)
  finally show "contents (snd (try_push_from_interrupt ev ch)) = contents ch @ [ev]" .
qed

lemma pop_empty: "occupied ch = 0 \<Longrightarrow> pop_blocking ch = (TimedOut, ch)"
  by (simp add: pop_blocking_def)

text \<open>A pop from a channel that holds something delivers the oldest event and removes it.\<close>

lemma pop_event:
  assumes ok: "channel_ok ch" and some: "occupied ch \<noteq> 0"
  shows "fst (pop_blocking ch) = Event (hd (contents ch))"
    and "contents (snd (pop_blocking ch)) = tl (contents ch)"
proof -
  let ?n = "capacity ch"
  from ok have h: "head ch < ?n" by (simp add: channel_ok_def)
  from some obtain k where k: "occupied ch = Suc k" by (cases "occupied ch") auto
  have "hd (contents ch) = slots ch ! head ch"
    using h by (simp add: contents_def k upt_conv_Cons del: upt_Suc)
  then show "fst (pop_blocking ch) = Event (hd (contents ch))"
    using some by (simp add: pop_blocking_def)
  have shift: "(Suc (head ch) mod ?n + i) mod ?n = (head ch + Suc i) mod ?n" for i
    by (simp add: mod_add_left_eq)
  have "tl (contents ch) = map (\<lambda>i. slots ch ! ((head ch + i) mod ?n)) (map Suc [0..<k])"
    by (simp add: contents_def k upt_conv_Cons map_Suc_upt del: upt_Suc)
  also have "\<dots> = map (\<lambda>i. slots ch ! ((Suc (head ch) mod ?n + i) mod ?n)) [0..<k]"
    by (simp add: shift o_def)
  also have "\<dots> = contents (snd (pop_blocking ch))"
    using some by (simp add: pop_blocking_def contents_def capacity_def k)
  finally show "contents (snd (pop_blocking ch)) = tl (contents ch)" by simp
qed

lemma chan_run_fst_Cons:
  "fst (chan_run ch (op # ops)) = fst (chan_step op ch) # fst (chan_run (snd (chan_step op ch)) ops)"
  by (simp split: prod.splits)

lemma chan_run_snd_Cons:
  "snd (chan_run ch (op # ops)) = snd (chan_run (snd (chan_step op ch)) ops)"
  by (simp split: prod.splits)

lemma chan_step_Push:
  "chan_step (Push ev) ch
     = (Pushed (fst (try_push_from_interrupt ev ch)), snd (try_push_from_interrupt ev ch))"
  by (simp split: prod.splits)

lemma chan_step_Pop:
  "chan_step Pop ch = (Popped (fst (pop_blocking ch)), snd (pop_blocking ch))"
  by (simp split: prod.splits)

text \<open>
  The invariant of an interleaving in which no push is refused: what has been popped,
  followed by what the channel holds, is what it held at the start followed by what has
  been pushed.
\<close>

lemma chan_run_fifo:
  "channel_ok ch \<Longrightarrow> Pushed QueueFull \<notin> set (fst (chan_run ch ops)) \<Longrightarrow>
   popped_events (fst (chan_run ch ops)) @ contents (snd (chan_run ch ops))
     = contents ch @ pushed_events ops"
proof (induction ops arbitrary: ch)
  case Nil
  show ?case by simp
next
  case (Cons op ops)
  note ok = \<open>channel_ok ch\<close>
  show ?case
  proof (cases op)
    case (Push ev)
    let ?ch' = "snd (try_push_from_interrupt ev ch)"
    from Cons.prems(2) have acc: "fst (try_push_from_interrupt ev ch) \<noteq> QueueFull"
      and rest: "Pushed QueueFull \<notin> set (fst (chan_run ?ch' ops))"
      unfolding Push chan_run_fst_Cons chan_step_Push by auto
    from acc have room: "occupied ch \<noteq> capacity ch"
      by (auto simp: push_full)
    have "popped_events (fst (chan_run ?ch' ops)) @ contents (snd (chan_run ?ch' ops))
        = contents ?ch' @ pushed_events ops"
      using channel_ok_push [OF ok] rest by (rule Cons.IH)
    then show ?thesis
      unfolding Push chan_run_fst_Cons chan_run_snd_Cons chan_step_Push
      by (simp add: push_accepted [OF ok room])
  next
    case Pop
    let ?ch' = "snd (pop_blocking ch)"
    from Cons.prems(2) have rest: "Pushed QueueFull \<notin> set (fst (chan_run ?ch' ops))"
      unfolding Pop chan_run_fst_Cons chan_step_Pop by simp
    have IH: "popped_events (fst (chan_run ?ch' ops)) @ contents (snd (chan_run ?ch' ops))
        = contents ?ch' @ pushed_events ops"
      using channel_ok_pop [OF ok] rest by (rule Cons.IH)
    show ?thesis
    proof (cases "occupied ch = 0")
      case True
      with IH show ?thesis
        unfolding Pop chan_run_fst_Cons chan_run_snd_Cons chan_step_Pop
        by (simp add: pop_empty)
    next
      case False
      then have "contents ch \<noteq> []"
        by (simp add: contents_def)
      then have "contents ch = hd (contents ch) # tl (contents ch)" by simp
      with IH show ?thesis
        unfolding Pop chan_run_fst_Cons chan_run_snd_Cons chan_step_Pop
        by (simp add: pop_event [OF ok False])
    qed
  qed
qed

text \<open>When the pushes of an interleaving fit into the free slots, none is refused.\<close>

lemma few_pushes_fit:
  "occupied ch + length (pushed_events ops) \<le> capacity ch \<Longrightarrow>
   Pushed QueueFull \<notin> set (fst (chan_run ch ops))"
proof (induction ops arbitrary: ch)
  case Nil
  show ?case by simp
next
  case (Cons op ops)
  show ?case
  proof (cases op)
    case (Push ev)
    from Cons.prems have room: "occupied ch \<noteq> capacity ch" by (simp add: Push)
    then have acc: "fst (try_push_from_interrupt ev ch) = Accepted"
      and occ: "occupied (snd (try_push_from_interrupt ev ch)) = Suc (occupied ch)"
      and cap: "capacity (snd (try_push_from_interrupt ev ch)) = capacity ch"
      by (simp_all add: try_push_from_interrupt_def capacity_def)
    have "Pushed QueueFull \<notin> set (fst (chan_run (snd (try_push_from_interrupt ev ch)) ops))"
      by (rule Cons.IH) (use Cons.prems in \<open>simp add: Push occ cap\<close>)
    then show ?thesis
      unfolding Push chan_run_fst_Cons chan_step_Push by (simp add: acc)
  next
    case Pop
    have occ: "occupied (snd (pop_blocking ch)) \<le> occupied ch"
      and cap: "capacity (snd (pop_blocking ch)) = capacity ch"
      by (simp_all add: pop_blocking_def capacity_def)
    have "Pushed QueueFull \<notin> set (fst (chan_run (snd (pop_blocking ch)) ops))"
      by (rule Cons.IH) (use Cons.prems occ in \<open>simp add: Pop cap\<close>)
    then show ?thesis
      unfolding Pop chan_run_fst_Cons chan_step_Pop by simp
  qed
qed

text \<open>
  Claim C2. Take a channel of capacity \<open>n > 0\<close>, empty at first, and any interleaving of
  pushes and pops in which the events waiting never exceed the capacity, so that no push
  is refused. Then the events delivered by the pops, followed by the events still in
  the channel, are the events pushed, in the order they were pushed; the events
  delivered are thus the first ones pushed, in that order.
\<close>

theorem pops_deliver_in_push_order:
  assumes "0 < n"
      and "Pushed QueueFull \<notin> set (fst (chan_run (channel_create n) ops))"
  shows "popped_events (fst (chan_run (channel_create n) ops))
           @ contents (snd (chan_run (channel_create n) ops)) = pushed_events ops
       \<and> popped_events (fst (chan_run (channel_create n) ops))
           = take (length (popped_events (fst (chan_run (channel_create n) ops))))
               (pushed_events ops)"
proof -
  have all: "popped_events (fst (chan_run (channel_create n) ops))
           @ contents (snd (chan_run (channel_create n) ops)) = pushed_events ops"
    using chan_run_fifo [OF channel_ok_create [OF assms(1)] assms(2)]
    by (simp add: contents_create)
  have "take (length xs) (xs @ ys) = xs" for xs ys :: "gpio list"
    by simp
  from this [of "popped_events (fst (chan_run (channel_create n) ops))"
                "contents (snd (chan_run (channel_create n) ops))"] all
  show ?thesis by simp
qed

theorem pops_deliver_in_push_order_witness:
  "(0 :: nat) < 3
 \<and> Pushed QueueFull \<notin> set (fst (chan_run (channel_create 3)
        [Push 0, Push 4, Pop, Push 4, Push 0, Pop, Pop, Pop]))
 \<and> popped_events (fst (chan_run (channel_create 3)
        [Push 0, Push 4, Pop, Push 4, Push 0, Pop, Pop, Pop])) = [0, 4, 4, 0]
 \<and> popped_events (fst (chan_run (channel_create 3)
        [Push 0, Push 4, Pop, Push 4, Push 0, Pop, Pop, Pop]))
      @ contents (snd (chan_run (channel_create 3)
        [Push 0, Push 4, Pop, Push 4, Push 0, Pop, Pop, Pop]))
    = pushed_events [Push 0, Push 4, Pop, Push 4, Push 0, Pop, Pop, Pop]"
proof -
  have pos: "(0 :: nat) < 3" by simp
  have fits: "Pushed QueueFull \<notin> set (fst (chan_run (channel_create 3)
        [Push 0, Push 4, Pop, Push 4, Push 0, Pop, Pop, Pop]))"
    by code_simp
  have vals: "popped_events (fst (chan_run (channel_create 3)
        [Push 0, Push 4, Pop, Push 4, Push 0, Pop, Pop, Pop])) = [0, 4, 4, 0]"
    by code_simp
  from pops_deliver_in_push_order [OF pos fits] pos fits vals
  show ?thesis by blast
qed

text \<open>
  Claim C3. A push into a channel whose occupied count equals its capacity returns
  \<open>QueueFull\<close> and gives back the very channel it was given, so its contents are
  unchanged. On a new channel of capacity 2, three pushes in a row return \<open>Accepted\<close>,
  \<open>Accepted\<close>, \<open>QueueFull\<close>, and the channel then holds the first two events.
\<close>

theorem push_on_full_channel_refused:
  "(occupied ch = capacity ch \<longrightarrow>
      try_push_from_interrupt ev ch = (QueueFull, ch)
    \<and> contents (snd (try_push_from_interrupt ev ch)) = contents ch)
 \<and> fst (chan_run (channel_create 2) [Push e1, Push e2, Push e3])
      = [Pushed Accepted, Pushed Accepted, Pushed QueueFull]
 \<and> contents (snd (chan_run (channel_create 2) [Push e1, Push e2, Push e3])) = [e1, e2]"
proof (intro conjI impI)
  assume "occupied ch = capacity ch"
  then show "try_push_from_interrupt ev ch = (QueueFull, ch)"
    and "contents (snd (try_push_from_interrupt ev ch)) = contents ch"
    by (simp_all add: push_full)
next
  show "fst (chan_run (channel_create 2) [Push e1, Push e2, Push e3])
      = [Pushed Accepted, Pushed Accepted, Pushed QueueFull]"
    by (simp add: channel_create_def try_push_from_interrupt_def capacity_def numeral_2_eq_2)
next
  show "contents (snd (chan_run (channel_create 2) [Push e1, Push e2, Push e3])) = [e1, e2]"
    by (simp add: channel_create_def try_push_from_interrupt_def capacity_def contents_def
        numeral_2_eq_2)
qed

theorem push_on_full_channel_refused_witness:
  "occupied \<lparr>slots = [4, 0], head = 1, occupied = 2\<rparr>
     = capacity \<lparr>slots = [4, 0], head = 1, occupied = 2\<rparr>
 \<and> try_push_from_interrupt 9 \<lparr>slots = [4, 0], head = 1, occupied = 2\<rparr>
     = (QueueFull, \<lparr>slots = [4, 0], head = 1, occupied = 2\<rparr>)
 \<and> fst (chan_run (channel_create 2) [Push 0, Push 0, Push 4])
      = [Pushed Accepted, Pushed Accepted, Pushed QueueFull]"
proof -
  have full: "occupied \<lparr>slots = [4, 0], head = 1, occupied = 2\<rparr>
     = capacity \<lparr>slots = [4, 0], head = 1, occupied = 2\<rparr>"
    by (simp add: capacity_def)
  from push_on_full_channel_refused
         [of "\<lparr>slots = [4, 0], head = 1, occupied = 2\<rparr>" 9 0 0 4] full
  show ?thesis by blast
qed

section \<open>Dropped and accepted events in the running system\<close>








end
